theory Spec2Isabelle
  imports Main "HOL-Library.AList" "HOL-Library.Sublist"
begin

section \<open>The feed manager of \<^verbatim>\<open>rss_manager.py\<close>: data model\<close>

text \<open>
  The class \<^verbatim>\<open>RSSManager\<close> keeps one dictionary, \<^verbatim>\<open>processed_articles\<close>, from the
  fingerprint of an article to the ISO timestamp of the moment it was first seen, and
  writes it to a JSON file after every change. Everything outside the class (the MD5
  digest, the clock, the file system, the HTTP client and the feed parser) is library
  code: it is a component of the environment \<open>env\<close> below, and every theorem holds for
  every environment.

  Python exceptions are values of the type \<open>exn\<close>; a computation that may raise returns
  \<open>exn + 'a\<close> with \<open>Inl\<close> for the exception. The constructors of \<open>exn\<close> stand for
  instances of Python's class \<^verbatim>\<open>Exception\<close>, which is what the handlers of the source
  (\<^verbatim>\<open>except Exception\<close>) catch.
\<close>

datatype exn =
    ClientError | TimeoutError | DecodeError | ParseError
  | OSError | ValueError | TypeError | OverflowError

type_synonym 'a result = "exn + 'a"

text \<open>
  A Python dictionary with string keys is an association list in insertion order;
  \<open>AList.update\<close> is the assignment \<^verbatim>\<open>d[k] = v\<close> (in place when the key is there, at the
  end otherwise) and \<open>dict_get\<close> is \<^verbatim>\<open>d.get(k, default)\<close>.
\<close>

type_synonym 'v dict = "(string \<times> 'v) list"

definition dict_get :: "'v dict \<Rightarrow> string \<Rightarrow> 'v \<Rightarrow> 'v" where
  "dict_get d k dflt = (case map_of d k of None \<Rightarrow> dflt | Some v \<Rightarrow> v)"

definition keys :: "'v dict \<Rightarrow> string set" where
  "keys d = set (map fst d)"

text \<open>
  What \<^verbatim>\<open>feedparser.parse\<close> returns: \<^verbatim>\<open>feed.entries\<close> is a list of entries, \<^verbatim>\<open>feed.feed\<close>
  the channel's own fields, and \<^verbatim>\<open>feed.bozo\<close> the flag the parser sets when the document
  is not a well-formed feed (it then returns what it could recover, often no entry at
  all, and raises nothing). The source never reads \<^verbatim>\<open>bozo\<close>. An entry associates each key
  with the value \<^verbatim>\<open>entry.get(key)\<close> finds.
\<close>

type_synonym entry = "string dict"

record feed =
  entries :: "entry list"
  channel :: "string dict"
  bozo :: bool

text \<open>The dictionary literal built at lines 91 to 98 of the source.\<close>

record article =
  title :: string
  link :: string
  description :: string
  published :: string
  feed_title :: string
  feed_url :: string

text \<open>
  A \<^verbatim>\<open>datetime\<close> is a count of microseconds since 0001-01-01T00:00:00 together with its
  UTC offset, \<open>None\<close> for a naive value. \<^verbatim>\<open>datetime.now()\<close> is naive.
\<close>

datatype datetime = DateTime (ticks: int) (utcoffset: "int option")

text \<open>
  What \<^verbatim>\<open>processed_articles.json\<close> holds: nothing, something that is not the JSON of a
  dictionary, or a dictionary. One call of \<^verbatim>\<open>save_processed_articles\<close> either writes the
  file or raises; when it raises, the flag says whether \<^verbatim>\<open>open(..., 'w')\<close> had already
  emptied the file.
\<close>

datatype file_content = Absent | Garbled | Json "string dict"

datatype write_outcome = Written | WriteFails exn bool

text \<open>An HTTP response: its status and what \<^verbatim>\<open>await response.text()\<close> gives.\<close>

record response =
  status :: int
  body_text :: "string result"

type_synonym network = "string \<Rightarrow> response result"

record env =
  md5_hexdigest :: "string \<Rightarrow> string"
    \<comment> \<open>\<^verbatim>\<open>hashlib.md5(s.encode('utf-8')).hexdigest()\<close>\<close>
  now :: "nat \<Rightarrow> int"
    \<comment> \<open>the reading of the \<open>k\<close>-th call of \<^verbatim>\<open>datetime.now()\<close>, in microseconds\<close>
  isoformat :: "datetime \<Rightarrow> string"
  fromisoformat :: "string \<Rightarrow> datetime result"
  write_file :: "nat \<Rightarrow> write_outcome"
    \<comment> \<open>the outcome of the \<open>k\<close>-th attempt to rewrite the JSON file\<close>
  parse :: "string \<Rightarrow> feed result"
    \<comment> \<open>\<^verbatim>\<open>feedparser.parse\<close>\<close>

text \<open>
  The state: the dictionary of the manager, the JSON file, how many times the clock was
  read and the file rewritten, and the history \<open>marked\<close> of the fingerprints that
  \<^verbatim>\<open>mark_article_processed\<close> was called for (a record of the calls, read by no function).
\<close>

record state =
  processed_articles :: "string dict"
  stored :: file_content
  now_calls :: nat
  save_calls :: nat
  marked :: "string list"

section \<open>The deduplication store\<close>

definition save_processed_articles :: "env \<Rightarrow> state \<Rightarrow> unit result \<times> state" where
  "save_processed_articles E st =
     (let st' = st\<lparr>save_calls := Suc (save_calls st)\<rparr> in
      case write_file E (save_calls st) of
        Written \<Rightarrow> (Inr (), st'\<lparr>stored := Json (processed_articles st)\<rparr>)
      | WriteFails e truncated \<Rightarrow>
          (Inl e, if truncated then st'\<lparr>stored := Garbled\<rparr> else st'))"

definition generate_article_hash :: "env \<Rightarrow> string \<Rightarrow> string \<Rightarrow> string" where
  "generate_article_hash E t l = md5_hexdigest E (t @ ''|'' @ l)"

definition is_article_processed :: "env \<Rightarrow> state \<Rightarrow> string \<Rightarrow> string \<Rightarrow> bool" where
  "is_article_processed E st t l =
     (generate_article_hash E t l \<in> keys (processed_articles st))"

definition mark_article_processed ::
  "env \<Rightarrow> state \<Rightarrow> string \<Rightarrow> string \<Rightarrow> unit result \<times> state" where
  "mark_article_processed E st t l =
     (let article_hash = generate_article_hash E t l;
          stamp = isoformat E (DateTime (now E (now_calls st)) None)
      in save_processed_articles E
           (st\<lparr>processed_articles := AList.update article_hash stamp (processed_articles st),
               now_calls := Suc (now_calls st),
               marked := marked st @ [article_hash]\<rparr>))"

section \<open>Fetching one feed\<close>

text \<open>
  \<^verbatim>\<open>fetch_feed\<close>: the body of the \<^verbatim>\<open>try\<close> block first, then the function with its handler.
  The two \<^verbatim>\<open>print\<close> calls write to the console only and are left out.
\<close>

definition fetch_feed_body :: "env \<Rightarrow> network \<Rightarrow> string \<Rightarrow> feed option result" where
  "fetch_feed_body E net url =
     (case net url of
        Inl e \<Rightarrow> Inl e
      | Inr resp \<Rightarrow>
          if status resp = 200 then
            (case body_text resp of
               Inl e \<Rightarrow> Inl e
             | Inr content \<Rightarrow>
                 (case parse E content of Inl e \<Rightarrow> Inl e | Inr f \<Rightarrow> Inr (Some f)))
          else Inr None)"

definition fetch_feed :: "env \<Rightarrow> network \<Rightarrow> string \<Rightarrow> feed option result" where
  "fetch_feed E net url =
     (case fetch_feed_body E net url of Inl e \<Rightarrow> Inr None | Inr r \<Rightarrow> Inr r)"

section \<open>New articles of one feed\<close>

text \<open>
  The slice \<^verbatim>\<open>xs[:n]\<close>: a negative \<open>n\<close> counts from the end of the list.
\<close>

definition slice_to :: "'a list \<Rightarrow> int \<Rightarrow> 'a list" where
  "slice_to xs n = (if 0 \<le> n then take (nat n) xs else take (length xs - nat (- n)) xs)"

definition entry_title :: "entry \<Rightarrow> string" where
  "entry_title e = dict_get e ''title'' ''No Title''"

definition entry_link :: "entry \<Rightarrow> string" where
  "entry_link e = dict_get e ''link'' []"

definition make_article :: "feed \<Rightarrow> string \<Rightarrow> entry \<Rightarrow> article" where
  "make_article f url e =
     \<lparr>title = entry_title e,
      link = entry_link e,
      description = dict_get e ''description'' (dict_get e ''summary'' []),
      published = dict_get e ''published'' (dict_get e ''updated'' []),
      feed_title = dict_get (channel f) ''title'' ''Unknown Feed'',
      feed_url = url\<rparr>"

text \<open>
  A list without its repetitions, each element staying where it occurs first:
  \<open>first_occurrences [a, b, a, c, b] = [a, b, c]\<close>.
\<close>

definition first_occurrences :: "'a list \<Rightarrow> 'a list" where
  "first_occurrences xs = rev (remdups (rev xs))"

text \<open>The fingerprint the loop computes for an entry.\<close>

abbreviation fingerprint :: "env \<Rightarrow> entry \<Rightarrow> string" where
  "fingerprint E e \<equiv> generate_article_hash E (entry_title e) (entry_link e)"

text \<open>
  The \<^verbatim>\<open>for\<close> loop of \<^verbatim>\<open>get_new_articles\<close> over the entries still to visit, with the
  list \<^verbatim>\<open>new_articles\<close> built so far. An exception of \<^verbatim>\<open>mark_article_processed\<close> ends
  the loop and leaves the function.
\<close>

fun new_articles_loop ::
  "env \<Rightarrow> feed \<Rightarrow> string \<Rightarrow> entry list \<Rightarrow> article list \<Rightarrow> state
     \<Rightarrow> article list result \<times> state" where
  "new_articles_loop E f url [] new_articles st = (Inr new_articles, st)"
| "new_articles_loop E f url (e # es) new_articles st =
     (if \<not> is_article_processed E st (entry_title e) (entry_link e) then
        (case mark_article_processed E st (entry_title e) (entry_link e) of
           (Inl ex, st') \<Rightarrow> (Inl ex, st')
         | (Inr _, st') \<Rightarrow>
             new_articles_loop E f url es (new_articles @ [make_article f url e]) st')
      else new_articles_loop E f url es new_articles st)"

text \<open>
  \<^verbatim>\<open>get_new_articles\<close>. The test \<^verbatim>\<open>if not feed\<close> holds for \<^verbatim>\<open>None\<close> only: the dictionary
  that \<^verbatim>\<open>feedparser.parse\<close> returns always has keys, so it is never empty.
\<close>

definition get_new_articles ::
  "env \<Rightarrow> network \<Rightarrow> state \<Rightarrow> string \<Rightarrow> int \<Rightarrow> article list result \<times> state" where
  "get_new_articles E net st url max_articles =
     (case fetch_feed E net url of
        Inl ex \<Rightarrow> (Inl ex, st)
      | Inr None \<Rightarrow> (Inr [], st)
      | Inr (Some f) \<Rightarrow>
          new_articles_loop E f url (slice_to (entries f) max_articles) [] st)"

section \<open>One check cycle over all feeds\<close>

text \<open>
  The first loop of \<^verbatim>\<open>check_all_feeds\<close>: one task per feed whose \<^verbatim>\<open>url\<close> is present and
  not empty. A task is a coroutine that has not started: the body of
  \<^verbatim>\<open>get_new_articles\<close> runs when the second loop awaits it, so a task is the pair of the
  feed's id and its URL.
\<close>

fun make_tasks :: "string dict dict \<Rightarrow> (string \<times> string) list" where
  "make_tasks [] = []"
| "make_tasks ((feed_id, feed_data) # feeds) =
     (case map_of feed_data ''url'' of
        None \<Rightarrow> make_tasks feeds
      | Some u \<Rightarrow> if u \<noteq> [] then (feed_id, u) # make_tasks feeds else make_tasks feeds)"

text \<open>
  The second loop awaits the tasks in order. \<open>nets feed_id\<close> is what the network does
  while the task of \<open>feed_id\<close> runs. The handler drops the exception of a task and goes on
  to the next one.
\<close>

fun await_tasks ::
  "env \<Rightarrow> (string \<Rightarrow> network) \<Rightarrow> (string \<times> string) list \<Rightarrow> article list dict \<Rightarrow> state
     \<Rightarrow> article list dict \<times> state" where
  "await_tasks E nets [] results st = (results, st)"
| "await_tasks E nets ((feed_id, url) # tasks) results st =
     (case get_new_articles E (nets feed_id) st url 10 of
        (Inl ex, st') \<Rightarrow> await_tasks E nets tasks results st'
      | (Inr articles, st') \<Rightarrow>
          if articles \<noteq> [] then
            await_tasks E nets tasks (AList.update feed_id articles results) st'
          else await_tasks E nets tasks results st')"

definition check_all_feeds ::
  "env \<Rightarrow> (string \<Rightarrow> network) \<Rightarrow> string dict dict \<Rightarrow> state \<Rightarrow> article list dict \<times> state" where
  "check_all_feeds E nets feeds st = await_tasks E nets (make_tasks feeds) [] st"

text \<open>
  What each task of a cycle did, in the order of the cycle: the id of its feed with the
  list \<^verbatim>\<open>get_new_articles\<close> returned or the exception it raised. This is an observation
  of the cycle, used to state what the returned mapping holds.
\<close>

fun task_outcomes ::
  "env \<Rightarrow> (string \<Rightarrow> network) \<Rightarrow> (string \<times> string) list \<Rightarrow> state
     \<Rightarrow> (string \<times> article list result) list" where
  "task_outcomes E nets [] st = []"
| "task_outcomes E nets ((feed_id, url) # tasks) st =
     (case get_new_articles E (nets feed_id) st url 10 of
        (r, st') \<Rightarrow> (feed_id, r) # task_outcomes E nets tasks st')"

text \<open>The entries a fetch delivers: none when \<^verbatim>\<open>fetch_feed\<close> returns \<^verbatim>\<open>None\<close>.\<close>

definition fetched_entries :: "env \<Rightarrow> network \<Rightarrow> string \<Rightarrow> entry list" where
  "fetched_entries E net url =
     (case fetch_feed E net url of Inr (Some f) \<Rightarrow> entries f | _ \<Rightarrow> [])"

section \<open>Pruning the index\<close>

text \<open>
  \<^verbatim>\<open>timedelta(days=d)\<close> in microseconds, the subtraction of a \<^verbatim>\<open>timedelta\<close> from a
  \<^verbatim>\<open>datetime\<close> and the comparison \<^verbatim>\<open>a > b\<close>, each with the exception Python raises: a
  \<^verbatim>\<open>timedelta\<close> holds at most 999999999 days, a \<^verbatim>\<open>datetime\<close> lies between the years 1
  and 9999, and a naive value cannot be compared with an aware one.
\<close>

definition timedelta_days :: "int \<Rightarrow> int result" where
  "timedelta_days d =
     (if - 999999999 \<le> d \<and> d \<le> 999999999 then Inr (d * 86400000000) else Inl OverflowError)"

definition max_ticks :: int where
  "max_ticks = 3652059 * 86400000000 - 1"

definition datetime_minus :: "datetime \<Rightarrow> int \<Rightarrow> datetime result" where
  "datetime_minus d delta =
     (let t = ticks d - delta in
      if 0 \<le> t \<and> t \<le> max_ticks then Inr (DateTime t (utcoffset d)) else Inl OverflowError)"

definition datetime_gt :: "datetime \<Rightarrow> datetime \<Rightarrow> bool result" where
  "datetime_gt a b =
     (case (utcoffset a, utcoffset b) of
        (None, None) \<Rightarrow> Inr (ticks b < ticks a)
      | (Some oa, Some ob) \<Rightarrow> Inr (ticks b - ob < ticks a - oa)
      | _ \<Rightarrow> Inl TypeError)"

text \<open>\<^verbatim>\<open>len(d)\<close>: the number of keys.\<close>

definition dict_len :: "'v dict \<Rightarrow> int" where
  "dict_len d = int (length (remdups (map fst d)))"

text \<open>
  The loop of \<^verbatim>\<open>cleanup_old_processed_articles\<close> over the items still to visit, with the
  dictionary \<^verbatim>\<open>cleaned_articles\<close> built so far. The bare \<^verbatim>\<open>except\<close> catches whatever the
  parsing or the comparison raises and goes on to the next item.
\<close>

fun cleanup_loop :: "env \<Rightarrow> datetime \<Rightarrow> string dict \<Rightarrow> string dict \<Rightarrow> string dict" where
  "cleanup_loop E cutoff_date [] cleaned_articles = cleaned_articles"
| "cleanup_loop E cutoff_date ((article_hash, processed_date_str) # items) cleaned_articles =
     (case fromisoformat E processed_date_str of
        Inl ex \<Rightarrow> cleanup_loop E cutoff_date items cleaned_articles
      | Inr processed_date \<Rightarrow>
          (case datetime_gt processed_date cutoff_date of
             Inl ex \<Rightarrow> cleanup_loop E cutoff_date items cleaned_articles
           | Inr newer \<Rightarrow>
               if newer then
                 cleanup_loop E cutoff_date items
                   (AList.update article_hash processed_date_str cleaned_articles)
               else cleanup_loop E cutoff_date items cleaned_articles))"

text \<open>
  The whole function. The count it returns is computed, as in the source, from
  \<^verbatim>\<open>self.processed_articles\<close> after the assignment that replaced it.
\<close>

definition cleanup_old_processed_articles :: "env \<Rightarrow> state \<Rightarrow> int \<Rightarrow> int result \<times> state" where
  "cleanup_old_processed_articles E st days =
     (let st0 = st\<lparr>now_calls := Suc (now_calls st)\<rparr> in
      case timedelta_days days of
        Inl ex \<Rightarrow> (Inl ex, st0)
      | Inr delta \<Rightarrow>
          (case datetime_minus (DateTime (now E (now_calls st)) None) delta of
             Inl ex \<Rightarrow> (Inl ex, st0)
           | Inr cutoff_date \<Rightarrow>
               (let cleaned_articles = cleanup_loop E cutoff_date (processed_articles st0) [];
                    st1 = st0\<lparr>processed_articles := cleaned_articles\<rparr>
                in case save_processed_articles E st1 of
                     (Inl ex, st2) \<Rightarrow> (Inl ex, st2)
                   | (Inr _, st2) \<Rightarrow>
                       (Inr (dict_len (processed_articles st2) - dict_len cleaned_articles),
                        st2))))"

section \<open>A concrete environment\<close>

text \<open>
  \<^verbatim>\<open>datetime.fromisoformat\<close> on the strings that \<^verbatim>\<open>isoformat()\<close> writes for a naive value,
  \<^verbatim>\<open>YYYY-MM-DDTHH:MM:SS\<close> with an optional \<^verbatim>\<open>.ffffff\<close>, by the proleptic Gregorian
  calendar of the \<^verbatim>\<open>datetime\<close> module. Python accepts further forms; here they are a
  \<^verbatim>\<open>ValueError\<close>. Used only to run the functions on concrete inputs.
\<close>

definition digit_of :: "char \<Rightarrow> int option" where
  "digit_of c =
     map_of [(CHR ''0'', 0), (CHR ''1'', 1), (CHR ''2'', 2), (CHR ''3'', 3), (CHR ''4'', 4),
             (CHR ''5'', 5), (CHR ''6'', 6), (CHR ''7'', 7), (CHR ''8'', 8), (CHR ''9'', 9)] c"

fun number_of :: "string \<Rightarrow> int \<Rightarrow> int option" where
  "number_of [] acc = Some acc"
| "number_of (c # cs) acc =
     (case digit_of c of None \<Rightarrow> None | Some d \<Rightarrow> number_of cs (10 * acc + d))"

definition is_leap :: "int \<Rightarrow> bool" where
  "is_leap y = (y mod 4 = 0 \<and> (y mod 100 \<noteq> 0 \<or> y mod 400 = 0))"

definition days_in_month :: "int \<Rightarrow> int \<Rightarrow> int" where
  "days_in_month y m =
     (if m = 2 then (if is_leap y then 29 else 28)
      else if m = 4 \<or> m = 6 \<or> m = 9 \<or> m = 11 then 30 else 31)"

definition days_before_year :: "int \<Rightarrow> int" where
  "days_before_year y = (y - 1) * 365 + (y - 1) div 4 - (y - 1) div 100 + (y - 1) div 400"

definition days_before_month :: "int \<Rightarrow> int \<Rightarrow> int" where
  "days_before_month y m = sum_list (map (days_in_month y) [1..m - 1])"

definition iso_parse :: "string \<Rightarrow> datetime result" where
  "iso_parse s =
     (if (length s = 19 \<or> length s = 26 \<and> s ! 19 = CHR ''.'')
         \<and> s ! 4 = CHR ''-'' \<and> s ! 7 = CHR ''-'' \<and> s ! 13 = CHR '':'' \<and> s ! 16 = CHR '':'' then
        (case (number_of (take 4 s) 0, number_of (take 2 (drop 5 s)) 0,
               number_of (take 2 (drop 8 s)) 0, number_of (take 2 (drop 11 s)) 0,
               number_of (take 2 (drop 14 s)) 0, number_of (take 2 (drop 17 s)) 0,
               number_of (drop 20 s) 0) of
           (Some y, Some m, Some d, Some hh, Some mm, Some ss, Some us) \<Rightarrow>
             if 1 \<le> y \<and> 1 \<le> m \<and> m \<le> 12 \<and> 1 \<le> d \<and> d \<le> days_in_month y m
                \<and> hh < 24 \<and> mm < 60 \<and> ss < 60 then
               Inr (DateTime
                 (((days_before_year y + days_before_month y m + d - 1) * 86400
                    + hh * 3600 + mm * 60 + ss) * 1000000 + us) None)
             else Inl ValueError
         | _ \<Rightarrow> Inl ValueError)
      else Inl ValueError)"

text \<open>
  An environment to run the functions in: the clock stands at 2024-01-31T00:00:00, every
  write of the file succeeds, the digest is the identity (an injective stand-in for
  MD5) and the parser knows two documents; on every other body it does what
  \<^verbatim>\<open>feedparser.parse\<close> does on a body that is no feed: it returns \<open>unparsed\<close>, a result with
  no entry and the flag \<^verbatim>\<open>bozo\<close> set.
\<close>

definition feed_ab :: feed where
  "feed_ab =
     \<lparr>entries = [[(''title'', ''A''), (''link'', ''http://x/1''), (''summary'', ''first'')],
                 [(''title'', ''B''), (''link'', ''http://x/2''), (''updated'', ''today'')]],
      channel = [(''title'', ''X News'')],
      bozo = False\<rparr>"

definition feed_dup :: feed where
  "feed_dup =
     \<lparr>entries = [[(''title'', ''A''), (''link'', ''http://x/1''), (''description'', ''old'')],
                 [(''link'', ''http://y/9'')],
                 [(''title'', ''A''), (''link'', ''http://x/1''), (''description'', ''new'')]],
      channel = [],
      bozo = False\<rparr>"

definition unparsed :: feed where
  "unparsed = \<lparr>entries = [], channel = [], bozo = True\<rparr>"

definition sample_parse :: "string \<Rightarrow> feed result" where
  "sample_parse content =
     (if content = ''<ab/>'' then Inr feed_ab
      else if content = ''<dup/>'' then Inr feed_dup
      else Inr unparsed)"

definition sample_env :: env where
  "sample_env =
     \<lparr>md5_hexdigest = (\<lambda>s. s),
      now = (\<lambda>k. 63842256000000000),
      isoformat = (\<lambda>d. ''2024-01-31T00:00:00''),
      fromisoformat = iso_parse,
      write_file = (\<lambda>k. Written),
      parse = sample_parse\<rparr>"

text \<open>The same environment with a disk whose first write fails.\<close>

definition faulty_env :: env where
  "faulty_env = sample_env\<lparr>write_file := (\<lambda>k. if k = 0 then WriteFails OSError False else Written)\<rparr>"

text \<open>
  A network that serves the two documents, a page that is gone, a body that is no feed
  and a body that cannot be decoded, and fails elsewhere.
\<close>

definition sample_net :: network where
  "sample_net url =
     (if url = ''http://x/feed'' then Inr \<lparr>status = 200, body_text = Inr ''<ab/>''\<rparr>
      else if url = ''http://y/feed'' then Inr \<lparr>status = 200, body_text = Inr ''<dup/>''\<rparr>
      else if url = ''http://x/gone'' then Inr \<lparr>status = 404, body_text = Inr []\<rparr>
      else if url = ''http://x/junk'' then Inr \<lparr>status = 200, body_text = Inr ''junk''\<rparr>
      else if url = ''http://x/bytes'' then Inr \<lparr>status = 200, body_text = Inl DecodeError\<rparr>
      else Inl ClientError)"

definition empty_state :: state where
  "empty_state =
     \<lparr>processed_articles = [], stored = Absent, now_calls = 0, save_calls = 0, marked = []\<rparr>"

text \<open>
  The same network for the task of every feed, and a registry of five feeds: two with
  entries, one whose URL is empty, one with no URL and one whose URL answers 404.
\<close>

definition sample_nets :: "string \<Rightarrow> network" where
  "sample_nets feed_id = sample_net"

definition sample_feeds :: "string dict dict" where
  "sample_feeds =
     [(''a'', [(''url'', ''http://x/feed''), (''name'', ''X'')]),
      (''b'', [(''url'', []), (''name'', ''no address'')]),
      (''c'', [(''name'', ''no url'')]),
      (''d'', [(''url'', ''http://x/gone'')]),
      (''e'', [(''url'', ''http://y/feed'')])]"

text \<open>
  Two indexes read at 2024-01-31T00:00:00: one with an entry recorded 40 days before, an
  entry recorded 10 days before and an entry whose timestamp is not a date; one with a
  single entry recorded exactly 30 days before.
\<close>

definition recorded_state :: state where
  "recorded_state =
     empty_state\<lparr>processed_articles :=
       [(''h1'', ''2023-12-22T00:00:00''), (''h2'', ''2024-01-21T00:00:00''),
        (''h3'', ''yesterday'')]\<rparr>"


section \<open>Unfolding the model on concrete inputs\<close>

lemmas model_defs =
  get_new_articles_def fetch_feed_def fetch_feed_body_def slice_to_def
  is_article_processed_def mark_article_processed_def save_processed_articles_def
  generate_article_hash_def entry_title_def entry_link_def make_article_def dict_get_def
  keys_def Let_def

lemmas sample_defs =
  sample_env_def sample_net_def sample_parse_def feed_ab_def feed_dup_def unparsed_def
  empty_state_def
  faulty_env_def

section \<open>Fingerprints\<close>

lemma keys_update: "keys (AList.update k v d) = insert k (keys d)"
  by (auto simp: keys_def AList.dom_update)

lemma keys_after_mark:
  "keys (processed_articles (snd (mark_article_processed E st t l))) =
     insert (generate_article_hash E t l) (keys (processed_articles st))"
  by (simp add: mark_article_processed_def save_processed_articles_def Let_def keys_update
      split: write_outcome.split)

text \<open>
  C1. The fingerprint of an article is a function of its title and its link and of
  nothing else: two entries that agree on \<^verbatim>\<open>title\<close> and \<^verbatim>\<open>link\<close>, whatever their
  description, summary, published and updated fields and whatever feed they come from,
  give articles with the same fingerprint, and once one is marked the other is reported
  as processed.
\<close>

theorem fingerprint_of_title_and_link_only:
  assumes "map_of e1 ''title'' = map_of e2 ''title''"
    and "map_of e1 ''link'' = map_of e2 ''link''"
  shows "generate_article_hash E (title (make_article f1 u1 e1)) (link (make_article f1 u1 e1))
           = generate_article_hash E (title (make_article f2 u2 e2)) (link (make_article f2 u2 e2))
         \<and> generate_article_hash E (entry_title e1) (entry_link e1)
           = generate_article_hash E (entry_title e2) (entry_link e2)
         \<and> is_article_processed E
             (snd (mark_article_processed E st (entry_title e1) (entry_link e1)))
             (entry_title e2) (entry_link e2)"
proof -
  have t: "entry_title e1 = entry_title e2" and l: "entry_link e1 = entry_link e2"
    using assms by (simp_all add: entry_title_def entry_link_def dict_get_def)
  show ?thesis
    by (simp add: make_article_def t l is_article_processed_def keys_after_mark)
qed

theorem fingerprint_of_title_and_link_only_witness:
  "map_of [(''title'', ''A''), (''link'', ''http://x/1''), (''description'', ''old''),
           (''published'', ''Mon'')] ''title''
     = map_of [(''title'', ''A''), (''link'', ''http://x/1''), (''description'', ''new''),
           (''published'', ''Tue'')] ''title''
   \<and> map_of [(''title'', ''A''), (''link'', ''http://x/1''), (''description'', ''old''),
           (''published'', ''Mon'')] ''link''
     = map_of [(''title'', ''A''), (''link'', ''http://x/1''), (''description'', ''new''),
           (''published'', ''Tue'')] ''link''
   \<and> description (make_article feed_ab ''u'' [(''title'', ''A''), (''link'', ''http://x/1''),
         (''description'', ''old''), (''published'', ''Mon'')])
     \<noteq> description (make_article feed_ab ''u'' [(''title'', ''A''), (''link'', ''http://x/1''),
         (''description'', ''new''), (''published'', ''Tue'')])
   \<and> generate_article_hash sample_env
        (entry_title [(''title'', ''A''), (''link'', ''http://x/1''), (''description'', ''old''),
           (''published'', ''Mon'')])
        (entry_link [(''title'', ''A''), (''link'', ''http://x/1''), (''description'', ''old''),
           (''published'', ''Mon'')])
     = generate_article_hash sample_env
        (entry_title [(''title'', ''A''), (''link'', ''http://x/1''), (''description'', ''new''),
           (''published'', ''Tue'')])
        (entry_link [(''title'', ''A''), (''link'', ''http://x/1''), (''description'', ''new''),
           (''published'', ''Tue'')])"
  using fingerprint_of_title_and_link_only
    [of "[(''title'', ''A''), (''link'', ''http://x/1''), (''description'', ''old''),
           (''published'', ''Mon'')]"
        "[(''title'', ''A''), (''link'', ''http://x/1''), (''description'', ''new''),
           (''published'', ''Tue'')]" sample_env feed_ab "''u''" feed_ab "''u''" empty_state]
  by (simp add: make_article_def dict_get_def)

text \<open>
  C10. Distinct (title, link) pairs can share a fingerprint whatever the digest is: the
  digest is taken of \<^verbatim>\<open>title + "|" + link\<close>, so the title \<^verbatim>\<open>a|b\<close> with the link \<^verbatim>\<open>c\<close> and
  the title \<^verbatim>\<open>a\<close> with the link \<^verbatim>\<open>b|c\<close> have the same fingerprint; after the first is
  marked the second is reported as processed, and a pass over both entries does exactly
  what a pass over the first alone does.
\<close>

theorem colliding_pairs_share_a_fingerprint:
  "(''a|b'', ''c'') \<noteq> (''a'', ''b|c'')
   \<and> generate_article_hash E ''a|b'' ''c'' = generate_article_hash E ''a'' ''b|c''
   \<and> is_article_processed E (snd (mark_article_processed E st ''a|b'' ''c'')) ''a'' ''b|c''
   \<and> new_articles_loop E f url
        [[(''title'', ''a|b''), (''link'', ''c'')], [(''title'', ''a''), (''link'', ''b|c'')]] new st
     = new_articles_loop E f url [[(''title'', ''a|b''), (''link'', ''c'')]] new st"
proof -
  have h: "generate_article_hash E ''a|b'' ''c'' = generate_article_hash E ''a'' ''b|c''"
    by (simp add: generate_article_hash_def)
  have t1: "entry_title [(''title'', ''a|b''), (''link'', ''c'')] = ''a|b''"
    and l1: "entry_link [(''title'', ''a|b''), (''link'', ''c'')] = ''c''"
    and t2: "entry_title [(''title'', ''a''), (''link'', ''b|c'')] = ''a''"
    and l2: "entry_link [(''title'', ''a''), (''link'', ''b|c'')] = ''b|c''"
    by (simp_all add: entry_title_def entry_link_def dict_get_def)
  have p: "is_article_processed E (snd (mark_article_processed E st ''a|b'' ''c'')) ''a'' ''b|c''"
    by (simp add: is_article_processed_def keys_after_mark h)
  have loop: "new_articles_loop E f url
        [[(''title'', ''a|b''), (''link'', ''c'')], [(''title'', ''a''), (''link'', ''b|c'')]] new st
     = new_articles_loop E f url [[(''title'', ''a|b''), (''link'', ''c'')]] new st"
  proof (cases "is_article_processed E st ''a|b'' ''c''")
    case True
    then have "is_article_processed E st ''a'' ''b|c''"
      by (simp add: is_article_processed_def h)
    with True show ?thesis by (simp add: t1 l1 t2 l2)
  next
    case False
    obtain r st' where m: "mark_article_processed E st ''a|b'' ''c'' = (r, st')"
      by (cases "mark_article_processed E st ''a|b'' ''c''")
    with p have "is_article_processed E st' ''a'' ''b|c''" by simp
    with False m show ?thesis by (cases r) (simp_all add: t1 l1 t2 l2)
  qed
  from h p loop show ?thesis by simp
qed

section \<open>The fetcher\<close>

text \<open>
  C4, as stated, fails for a body that cannot be parsed as a feed. \<^verbatim>\<open>fetch_feed\<close> returns
  whatever \<^verbatim>\<open>feedparser.parse\<close> returns on a response with status 200, and the parser
  reports a body that is no feed through the flag \<^verbatim>\<open>bozo\<close> of its result, not through an
  exception: for such a body the function returns that result, not \<^verbatim>\<open>None\<close>.
\<close>

theorem unparsable_body_is_returned_counterexample:
  "sample_net ''http://x/junk'' = Inr \<lparr>status = 200, body_text = Inr ''junk''\<rparr>
   \<and> parse sample_env ''junk'' = Inr \<lparr>entries = [], channel = [], bozo = True\<rparr>
   \<and> fetch_feed sample_env sample_net ''http://x/junk''
       = Inr (Some \<lparr>entries = [], channel = [], bozo = True\<rparr>)
   \<and> fetch_feed sample_env sample_net ''http://x/junk'' \<noteq> Inr None"
  by (simp add: fetch_feed_def fetch_feed_body_def sample_net_def sample_env_def
      sample_parse_def unparsed_def)

text \<open>
  C4, amended. \<^verbatim>\<open>fetch_feed\<close> never raises: it always returns a value. The value is
  \<^verbatim>\<open>None\<close> whenever the body of its \<^verbatim>\<open>try\<close> block raises, which happens exactly when the
  request raises (a network error) or, on a response with status 200, reading the body or
  the parser raises; it is \<^verbatim>\<open>None\<close> when the status is not 200; and on a response with
  status 200 whose body is read and handed to the parser without an exception it is the
  parser's result, whatever its flag \<^verbatim>\<open>bozo\<close> says.
\<close>

theorem fetch_feed_never_raises:
  "(\<exists>r. fetch_feed E net url = Inr r)
   \<and> (fetch_feed_body E net url = Inl ex
        \<longleftrightarrow> net url = Inl ex
            \<or> (\<exists>resp. net url = Inr resp \<and> status resp = 200
                 \<and> (body_text resp = Inl ex
                     \<or> (\<exists>content. body_text resp = Inr content \<and> parse E content = Inl ex))))
   \<and> (fetch_feed_body E net url = Inl ex \<longrightarrow> fetch_feed E net url = Inr None)
   \<and> (net url = Inl ex \<longrightarrow> fetch_feed E net url = Inr None)
   \<and> (\<forall>resp. net url = Inr resp \<and> status resp \<noteq> 200 \<longrightarrow> fetch_feed E net url = Inr None)
   \<and> (\<forall>resp content f. net url = Inr resp \<and> status resp = 200
          \<and> body_text resp = Inr content \<and> parse E content = Inr f
        \<longrightarrow> fetch_feed E net url = Inr (Some f))"
proof -
  have 1: "\<exists>r. fetch_feed E net url = Inr r"
    by (simp add: fetch_feed_def split: sum.splits)
  have 2: "fetch_feed_body E net url = Inl ex
        \<longleftrightarrow> net url = Inl ex
            \<or> (\<exists>resp. net url = Inr resp \<and> status resp = 200
                 \<and> (body_text resp = Inl ex
                     \<or> (\<exists>content. body_text resp = Inr content \<and> parse E content = Inl ex)))"
    by (auto simp: fetch_feed_body_def split: sum.splits)
  have 3: "fetch_feed_body E net url = Inl ex \<longrightarrow> fetch_feed E net url = Inr None"
    by (simp add: fetch_feed_def)
  have 4: "net url = Inl ex \<longrightarrow> fetch_feed E net url = Inr None"
    by (simp add: fetch_feed_def fetch_feed_body_def)
  have 5: "\<forall>resp. net url = Inr resp \<and> status resp \<noteq> 200 \<longrightarrow> fetch_feed E net url = Inr None"
    by (simp add: fetch_feed_def fetch_feed_body_def)
  have 6: "\<forall>resp content f. net url = Inr resp \<and> status resp = 200
          \<and> body_text resp = Inr content \<and> parse E content = Inr f
        \<longrightarrow> fetch_feed E net url = Inr (Some f)"
    by (simp add: fetch_feed_def fetch_feed_body_def)
  from 1 2 3 4 5 6 show ?thesis by blast
qed

theorem fetch_feed_never_raises_witness:
  "sample_net ''http://z/feed'' = Inl ClientError
   \<and> fetch_feed sample_env sample_net ''http://z/feed'' = Inr None
   \<and> sample_net ''http://x/gone'' = Inr \<lparr>status = 404, body_text = Inr []\<rparr>
   \<and> fetch_feed sample_env sample_net ''http://x/gone'' = Inr None
   \<and> sample_net ''http://x/bytes'' = Inr \<lparr>status = 200, body_text = Inl DecodeError\<rparr>
   \<and> fetch_feed_body sample_env sample_net ''http://x/bytes'' = Inl DecodeError
   \<and> fetch_feed sample_env sample_net ''http://x/bytes'' = Inr None
   \<and> sample_net ''http://x/feed'' = Inr \<lparr>status = 200, body_text = Inr ''<ab/>''\<rparr>
   \<and> parse sample_env ''<ab/>'' = Inr feed_ab
   \<and> fetch_feed sample_env sample_net ''http://x/feed'' = Inr (Some feed_ab)
   \<and> sample_net ''http://x/junk'' = Inr \<lparr>status = 200, body_text = Inr ''junk''\<rparr>
   \<and> parse sample_env ''junk'' = Inr unparsed
   \<and> fetch_feed sample_env sample_net ''http://x/junk'' = Inr (Some unparsed)"
proof -
  have a: "sample_net ''http://z/feed'' = Inl ClientError"
    and b: "sample_net ''http://x/gone'' = Inr \<lparr>status = 404, body_text = Inr []\<rparr>"
    and c: "sample_net ''http://x/bytes'' = Inr \<lparr>status = 200, body_text = Inl DecodeError\<rparr>"
    and d: "sample_net ''http://x/feed'' = Inr \<lparr>status = 200, body_text = Inr ''<ab/>''\<rparr>"
    and e: "sample_net ''http://x/junk'' = Inr \<lparr>status = 200, body_text = Inr ''junk''\<rparr>"
    by (simp_all add: sample_net_def)
  have p: "parse sample_env ''<ab/>'' = Inr feed_ab"
    and q: "parse sample_env ''junk'' = Inr unparsed"
    by (simp_all add: sample_env_def sample_parse_def)
  from fetch_feed_never_raises [of sample_env sample_net "''http://z/feed''" ClientError] a
  have 1: "fetch_feed sample_env sample_net ''http://z/feed'' = Inr None" by blast
  from fetch_feed_never_raises [of sample_env sample_net "''http://x/gone''"] b
  have 2: "fetch_feed sample_env sample_net ''http://x/gone'' = Inr None" by simp
  from fetch_feed_never_raises [of sample_env sample_net "''http://x/bytes''" DecodeError] c
  have 3: "fetch_feed_body sample_env sample_net ''http://x/bytes'' = Inl DecodeError"
    by simp
  with fetch_feed_never_raises [of sample_env sample_net "''http://x/bytes''" DecodeError]
  have 4: "fetch_feed sample_env sample_net ''http://x/bytes'' = Inr None" by blast
  from fetch_feed_never_raises [of sample_env sample_net "''http://x/feed''"] d p
  have 5: "fetch_feed sample_env sample_net ''http://x/feed'' = Inr (Some feed_ab)" by simp
  from fetch_feed_never_raises [of sample_env sample_net "''http://x/junk''"] e q
  have 6: "fetch_feed sample_env sample_net ''http://x/junk'' = Inr (Some unparsed)" by simp
  from a b c d e p q 1 2 3 4 5 6 show ?thesis by simp
qed

section \<open>One pass over a feed\<close>

lemma mark_state:
  "mark_article_processed E st t l = (r, st') \<Longrightarrow>
     keys (processed_articles st') = insert (generate_article_hash E t l) (keys (processed_articles st))
     \<and> marked st' = marked st @ [generate_article_hash E t l]"
  by (auto simp: mark_article_processed_def save_processed_articles_def Let_def keys_update
      split: write_outcome.splits if_splits)

lemma loop_marks:
  "new_articles_loop E f url es new st = (r, st') \<Longrightarrow>
     \<exists>ms. marked st' = marked st @ ms \<and> distinct ms
       \<and> set ms \<inter> keys (processed_articles st) = {}
       \<and> keys (processed_articles st') = keys (processed_articles st) \<union> set ms"
proof (induction es arbitrary: new st)
  case Nil
  then show ?case by simp
next
  case (Cons e es)
  let ?h = "generate_article_hash E (entry_title e) (entry_link e)"
  show ?case
  proof (cases "is_article_processed E st (entry_title e) (entry_link e)")
    case True
    with Cons.prems have "new_articles_loop E f url es new st = (r, st')" by simp
    then show ?thesis by (rule Cons.IH)
  next
    case False
    then have fresh: "?h \<notin> keys (processed_articles st)"
      by (simp add: is_article_processed_def)
    obtain r1 st1 where m: "mark_article_processed E st (entry_title e) (entry_link e) = (r1, st1)"
      by (cases "mark_article_processed E st (entry_title e) (entry_link e)")
    note ms = mark_state [OF m]
    show ?thesis
    proof (cases r1)
      case (Inl ex)
      with Cons.prems False m have "st' = st1" by simp
      with ms fresh show ?thesis by (intro exI [of _ "[?h]"]) auto
    next
      case (Inr u)
      with Cons.prems False m
      have "new_articles_loop E f url es (new @ [make_article f url e]) st1 = (r, st')" by simp
      from Cons.IH [OF this] obtain ms' where
        a: "marked st' = marked st1 @ ms'" and b: "distinct ms'"
        and c: "set ms' \<inter> keys (processed_articles st1) = {}"
        and d: "keys (processed_articles st') = keys (processed_articles st1) \<union> set ms'"
        by blast
      from c ms have "?h \<notin> set ms'" by auto
      with a b c d ms fresh show ?thesis by (intro exI [of _ "?h # ms'"]) auto
    qed
  qed
qed

lemma slice_to_Nil: "slice_to [] n = []"
  by (simp add: slice_to_def)

lemma fetch_feed_not_Inl: "fetch_feed E net url \<noteq> Inl ex"
  by (simp add: fetch_feed_def split: sum.splits)

lemma remdups_snoc: "remdups (ys @ [x]) = filter (\<lambda>y. y \<noteq> x) (remdups ys) @ [x]"
  by (induction ys) auto

lemma first_occurrences_Nil: "first_occurrences [] = []"
  by (simp add: first_occurrences_def)

lemma first_occurrences_Cons:
  "first_occurrences (x # xs) = x # filter (\<lambda>y. y \<noteq> x) (first_occurrences xs)"
  by (simp add: first_occurrences_def remdups_snoc rev_filter)

lemma first_occurrences_filter:
  "filter P (first_occurrences xs) = first_occurrences (filter P xs)"
  by (simp add: first_occurrences_def rev_filter remdups_filter)

lemma set_first_occurrences: "set (first_occurrences xs) = set xs"
  by (simp add: first_occurrences_def)

lemma distinct_first_occurrences: "distinct (first_occurrences xs)"
  by (simp add: first_occurrences_def)

lemma new_fingerprints_Cons_seen:
  "h \<in> K \<Longrightarrow> first_occurrences (filter (\<lambda>h. h \<notin> K) (h # hs))
     = first_occurrences (filter (\<lambda>h. h \<notin> K) hs)"
  by simp

lemma new_fingerprints_Cons_fresh:
  assumes "h \<notin> K"
  shows "first_occurrences (filter (\<lambda>h. h \<notin> K) (h # hs))
     = h # first_occurrences (filter (\<lambda>k. k \<notin> insert h K) hs)"
proof -
  have "filter (\<lambda>y. y \<noteq> h) (filter (\<lambda>h. h \<notin> K) hs) = filter (\<lambda>k. k \<notin> insert h K) hs"
    by (induction hs) auto
  with assms show ?thesis
    by (simp add: first_occurrences_Cons first_occurrences_filter)
qed

lemma loop_marks_exact:
  "new_articles_loop E f url es new st = (r, st') \<Longrightarrow>
     \<exists>ms. marked st' = marked st @ ms
       \<and> prefix ms (first_occurrences (filter (\<lambda>h. h \<notin> keys (processed_articles st))
                                     (map (fingerprint E) es)))
       \<and> (\<forall>arts. r = Inr arts \<longrightarrow>
            ms = first_occurrences (filter (\<lambda>h. h \<notin> keys (processed_articles st))
                                     (map (fingerprint E) es))
            \<and> map (\<lambda>a. generate_article_hash E (title a) (link a)) arts
                = map (\<lambda>a. generate_article_hash E (title a) (link a)) new @ ms)"
proof (induction es arbitrary: new st)
  case Nil
  then show ?case by (auto simp: first_occurrences_Nil)
next
  case (Cons e es)
  let ?h = "fingerprint E e"
  let ?K = "keys (processed_articles st)"
  let ?fp = "\<lambda>a. generate_article_hash E (title a) (link a)"
  show ?case
  proof (cases "is_article_processed E st (entry_title e) (entry_link e)")
    case True
    then have seen: "?h \<in> ?K" by (simp add: is_article_processed_def)
    have fo: "first_occurrences (filter (\<lambda>h. h \<notin> ?K) (map (fingerprint E) (e # es)))
       = first_occurrences (filter (\<lambda>h. h \<notin> ?K) (map (fingerprint E) es))"
      using new_fingerprints_Cons_seen [OF seen] by simp
    from True Cons.prems have "new_articles_loop E f url es new st = (r, st')" by simp
    from Cons.IH [OF this] show ?thesis unfolding fo .
  next
    case False
    then have fresh: "?h \<notin> ?K" by (simp add: is_article_processed_def)
    obtain r1 st1 where m: "mark_article_processed E st (entry_title e) (entry_link e) = (r1, st1)"
      by (cases "mark_article_processed E st (entry_title e) (entry_link e)")
    from mark_state [OF m] have k1: "keys (processed_articles st1) = insert ?h ?K"
      and m1: "marked st1 = marked st @ [?h]" by simp_all
    have fo: "first_occurrences (filter (\<lambda>h. h \<notin> ?K) (map (fingerprint E) (e # es)))
       = ?h # first_occurrences (filter (\<lambda>k. k \<notin> insert ?h ?K) (map (fingerprint E) es))"
      using new_fingerprints_Cons_fresh [OF fresh] by simp
    show ?thesis
    proof (cases r1)
      case (Inl ex)
      with Cons.prems False m have "st' = st1" and "r = Inl ex" by simp_all
      with m1 show ?thesis unfolding fo by (intro exI [of _ "[?h]"]) simp
    next
      case (Inr u)
      with Cons.prems False m
      have "new_articles_loop E f url es (new @ [make_article f url e]) st1 = (r, st')" by simp
      from Cons.IH [OF this] obtain ms' where
        a: "marked st' = marked st1 @ ms'"
        and b: "prefix ms' (first_occurrences (filter (\<lambda>h. h \<notin> keys (processed_articles st1))
                                     (map (fingerprint E) es)))"
        and c: "\<forall>arts. r = Inr arts \<longrightarrow>
            ms' = first_occurrences (filter (\<lambda>h. h \<notin> keys (processed_articles st1))
                                     (map (fingerprint E) es))
            \<and> map ?fp arts = map ?fp (new @ [make_article f url e]) @ ms'"
        by blast
      have t: "?fp (make_article f url e) = ?h"
        by (simp add: make_article_def)
      have 1: "marked st' = marked st @ (?h # ms')" using a m1 by simp
      have 2: "prefix (?h # ms') (?h # first_occurrences (filter (\<lambda>k. k \<notin> insert ?h ?K)
                   (map (fingerprint E) es)))"
        using b k1 by simp
      have 3: "?h # ms' = ?h # first_occurrences (filter (\<lambda>k. k \<notin> insert ?h ?K)
                   (map (fingerprint E) es))
            \<and> map ?fp arts = map ?fp new @ (?h # ms')" if "r = Inr arts" for arts
        using c that k1 t by simp
      from 1 2 3 show ?thesis unfolding fo by (intro exI [of _ "?h # ms'"]) blast
    qed
  qed
qed

text \<open>
  C7. Within one pass of \<^verbatim>\<open>get_new_articles\<close> no fingerprint is passed to
  \<^verbatim>\<open>mark_article_processed\<close> twice, and the first occurrence of every new fingerprint
  is the one that is marked. The fingerprints the pass marks, in the order of the calls,
  are pairwise distinct, none of them was in the index when the pass began, and all of
  them are in the index afterwards. They are an initial part of the list of the
  fingerprints of the entries visited that are not in the index, each at its first
  occurrence; when the pass returns they are that whole list, so every new fingerprint
  among the entries is marked exactly once, and they are, one for one and in order, the
  fingerprints of the articles returned. When a write of the file fails the pass stops
  after the mark that failed to be written.
\<close>

theorem each_fingerprint_marked_at_most_once:
  assumes "get_new_articles E net st url n = (r, st')"
  shows "\<exists>ms. marked st' = marked st @ ms
     \<and> distinct ms
     \<and> set ms \<inter> keys (processed_articles st) = {}
     \<and> keys (processed_articles st') = keys (processed_articles st) \<union> set ms
     \<and> prefix ms (first_occurrences (filter (\<lambda>h. h \<notin> keys (processed_articles st))
           (map (fingerprint E) (slice_to (fetched_entries E net url) n))))
     \<and> (\<forall>arts. r = Inr arts \<longrightarrow>
          ms = first_occurrences (filter (\<lambda>h. h \<notin> keys (processed_articles st))
                 (map (fingerprint E) (slice_to (fetched_entries E net url) n)))
          \<and> set ms = fingerprint E ` set (slice_to (fetched_entries E net url) n)
                       - keys (processed_articles st)
          \<and> map (\<lambda>a. generate_article_hash E (title a) (link a)) arts = ms)"
proof -
  let ?es = "slice_to (fetched_entries E net url) n"
  let ?K = "keys (processed_articles st)"
  let ?all = "first_occurrences (filter (\<lambda>h. h \<notin> ?K) (map (fingerprint E) ?es))"
  have loop: "new_articles_loop E \<lparr>entries = [], channel = [], bozo = False\<rparr> url [] [] st = (Inr [], st)"
    by simp
  obtain f where run: "new_articles_loop E f url ?es [] st = (r, st')"
  proof (cases "fetch_feed E net url")
    case (Inl ex)
    then show ?thesis by (simp add: fetch_feed_not_Inl)
  next
    case (Inr fo)
    show ?thesis
    proof (cases fo)
      case None
      with Inr assms have "r = Inr []" and "st' = st" and "?es = []"
        by (simp_all add: get_new_articles_def fetched_entries_def slice_to_Nil)
      with loop that show ?thesis by simp
    next
      case (Some f)
      with Inr assms that [of f] show ?thesis
        by (simp add: get_new_articles_def fetched_entries_def)
    qed
  qed
  from loop_marks [OF run] obtain ms where
    a: "marked st' = marked st @ ms" and b: "distinct ms" and c: "set ms \<inter> ?K = {}"
    and d: "keys (processed_articles st') = ?K \<union> set ms"
    by blast
  from loop_marks_exact [OF run] a have e: "prefix ms ?all"
    and g: "\<forall>arts. r = Inr arts \<longrightarrow> ms = ?all
         \<and> map (\<lambda>a. generate_article_hash E (title a) (link a)) arts = ms"
    by auto
  have "set ?all = fingerprint E ` set ?es - ?K"
    by (auto simp: set_first_occurrences)
  with g have h: "\<forall>arts. r = Inr arts \<longrightarrow> ms = ?all
         \<and> set ms = fingerprint E ` set ?es - ?K
         \<and> map (\<lambda>a. generate_article_hash E (title a) (link a)) arts = ms"
    by simp
  from a b c d e h show ?thesis by blast
qed


theorem each_fingerprint_marked_at_most_once_witness:
  "map (fingerprint sample_env)
       (slice_to (fetched_entries sample_env sample_net ''http://y/feed'') 10)
     = [''A|http://x/1'', ''No Title|http://y/9'', ''A|http://x/1'']
   \<and> keys (processed_articles empty_state) = {}
   \<and> fst (get_new_articles sample_env sample_net empty_state ''http://y/feed'' 10)
     = Inr [make_article feed_dup ''http://y/feed''
              [(''title'', ''A''), (''link'', ''http://x/1''), (''description'', ''old'')],
            make_article feed_dup ''http://y/feed'' [(''link'', ''http://y/9'')]]
   \<and> marked (snd (get_new_articles sample_env sample_net empty_state ''http://y/feed'' 10))
     = [''A|http://x/1'', ''No Title|http://y/9'']"
proof -
  let ?g = "get_new_articles sample_env sample_net empty_state ''http://y/feed'' 10"
  have fps: "map (fingerprint sample_env)
       (slice_to (fetched_entries sample_env sample_net ''http://y/feed'') 10)
     = [''A|http://x/1'', ''No Title|http://y/9'', ''A|http://x/1'']"
    by (simp add: fetched_entries_def model_defs sample_defs)
  have k: "keys (processed_articles empty_state) = {}"
    by (simp add: empty_state_def keys_def)
  have r: "fst ?g
     = Inr [make_article feed_dup ''http://y/feed''
              [(''title'', ''A''), (''link'', ''http://x/1''), (''description'', ''old'')],
            make_article feed_dup ''http://y/feed'' [(''link'', ''http://y/9'')]]"
    by (simp add: model_defs sample_defs)
  have m0: "marked empty_state = []" by (simp add: empty_state_def)
  have "?g = (fst ?g, snd ?g)" by simp
  from each_fingerprint_marked_at_most_once [OF this] obtain ms where
    a: "marked (snd ?g) = marked empty_state @ ms"
    and b: "\<forall>arts. fst ?g = Inr arts \<longrightarrow>
          ms = first_occurrences (filter (\<lambda>h. h \<notin> keys (processed_articles empty_state))
                 (map (fingerprint sample_env)
                    (slice_to (fetched_entries sample_env sample_net ''http://y/feed'') 10)))"
    by blast
  from b r have "ms = first_occurrences (filter (\<lambda>h. h \<notin> keys (processed_articles empty_state))
                 (map (fingerprint sample_env)
                    (slice_to (fetched_entries sample_env sample_net ''http://y/feed'') 10)))"
    by blast
  then have "ms = [''A|http://x/1'', ''No Title|http://y/9'']"
    unfolding fps k by (simp add: first_occurrences_def)
  with a m0 have "marked (snd ?g) = [''A|http://x/1'', ''No Title|http://y/9'']" by simp
  with fps k r show ?thesis by simp
qed

lemma loop_articles:
  "new_articles_loop E f url es new st = (Inr arts, st') \<Longrightarrow>
     \<exists>es'. subseq es' es \<and> arts = new @ map (make_article f url) es'"
proof (induction es arbitrary: new st)
  case Nil
  then show ?case by simp
next
  case (Cons e es)
  show ?case
  proof (cases "is_article_processed E st (entry_title e) (entry_link e)")
    case True
    with Cons.prems have "new_articles_loop E f url es new st = (Inr arts, st')" by simp
    from Cons.IH [OF this] show ?thesis by (auto intro: subseq_Cons')
  next
    case False
    obtain r1 st1 where m: "mark_article_processed E st (entry_title e) (entry_link e) = (r1, st1)"
      by (cases "mark_article_processed E st (entry_title e) (entry_link e)")
    show ?thesis
    proof (cases r1)
      case (Inl ex)
      with Cons.prems False m show ?thesis by simp
    next
      case (Inr u)
      with Cons.prems False m
      have "new_articles_loop E f url es (new @ [make_article f url e]) st1 = (Inr arts, st')"
        by simp
      from Cons.IH [OF this] obtain es' where
        "subseq es' es" and "arts = (new @ [make_article f url e]) @ map (make_article f url) es'"
        by blast
      then show ?thesis by (intro exI [of _ "e # es'"]) simp
    qed
  qed
qed

text \<open>
  C8. For a cap \<open>n\<close> that is a count (\<open>0 \<le> n\<close>), the articles \<^verbatim>\<open>get_new_articles\<close> returns
  are built from entries among the first \<open>n\<close> of the feed, in the order of the feed (a
  subsequence of that prefix), so there are at most \<open>n\<close> of them, and every field follows
  its chain: title, else \<^verbatim>\<open>No Title\<close>; link, else the empty string; description, else
  summary, else the empty string; published, else updated, else the empty string; the
  channel's title, else \<^verbatim>\<open>Unknown Feed\<close>; and the URL the feed was fetched from.
\<close>

theorem articles_from_first_entries:
  assumes "0 \<le> n"
    and "fetch_feed E net url = Inr (Some f)"
    and "get_new_articles E net st url n = (Inr arts, st')"
  shows "\<exists>es. subseq es (take (nat n) (entries f)) \<and> int (length arts) \<le> n
     \<and> arts = map (\<lambda>e.
        \<lparr>title = (case map_of e ''title'' of Some t \<Rightarrow> t | None \<Rightarrow> ''No Title''),
         link = (case map_of e ''link'' of Some l \<Rightarrow> l | None \<Rightarrow> []),
         description = (case map_of e ''description'' of Some d \<Rightarrow> d
            | None \<Rightarrow> (case map_of e ''summary'' of Some s \<Rightarrow> s | None \<Rightarrow> [])),
         published = (case map_of e ''published'' of Some p \<Rightarrow> p
            | None \<Rightarrow> (case map_of e ''updated'' of Some u \<Rightarrow> u | None \<Rightarrow> [])),
         feed_title = (case map_of (channel f) ''title'' of Some t \<Rightarrow> t
            | None \<Rightarrow> ''Unknown Feed''),
         feed_url = url\<rparr>) es"
proof -
  from assms have "new_articles_loop E f url (take (nat n) (entries f)) [] st = (Inr arts, st')"
    by (simp add: get_new_articles_def slice_to_def)
  from loop_articles [OF this] obtain es where
    s: "subseq es (take (nat n) (entries f))" and a: "arts = map (make_article f url) es"
    by auto
  from s have "length es \<le> length (take (nat n) (entries f))"
    by (rule list_emb_length)
  with a assms(1) have "int (length arts) \<le> n" by auto
  moreover have "make_article f url = (\<lambda>e.
        \<lparr>title = (case map_of e ''title'' of Some t \<Rightarrow> t | None \<Rightarrow> ''No Title''),
         link = (case map_of e ''link'' of Some l \<Rightarrow> l | None \<Rightarrow> []),
         description = (case map_of e ''description'' of Some d \<Rightarrow> d
            | None \<Rightarrow> (case map_of e ''summary'' of Some s \<Rightarrow> s | None \<Rightarrow> [])),
         published = (case map_of e ''published'' of Some p \<Rightarrow> p
            | None \<Rightarrow> (case map_of e ''updated'' of Some u \<Rightarrow> u | None \<Rightarrow> [])),
         feed_title = (case map_of (channel f) ''title'' of Some t \<Rightarrow> t
            | None \<Rightarrow> ''Unknown Feed''),
         feed_url = url\<rparr>)"
    by (rule ext) (simp add: make_article_def entry_title_def entry_link_def dict_get_def
        split: option.splits)
  ultimately show ?thesis using s a by auto
qed

theorem articles_from_first_entries_witness:
  "(0::int) \<le> 1
   \<and> fetch_feed sample_env sample_net ''http://x/feed'' = Inr (Some feed_ab)
   \<and> fst (get_new_articles sample_env sample_net empty_state ''http://x/feed'' 1)
       = Inr [\<lparr>title = ''A'', link = ''http://x/1'', description = ''first'', published = [],
               feed_title = ''X News'', feed_url = ''http://x/feed''\<rparr>]
   \<and> (\<exists>es. subseq es (take (nat 1) (entries feed_ab))
       \<and> [\<lparr>title = ''A'', link = ''http://x/1'', description = ''first'', published = [],
               feed_title = ''X News'', feed_url = ''http://x/feed''\<rparr>]
         = map (\<lambda>e.
        \<lparr>title = (case map_of e ''title'' of Some t \<Rightarrow> t | None \<Rightarrow> ''No Title''),
         link = (case map_of e ''link'' of Some l \<Rightarrow> l | None \<Rightarrow> []),
         description = (case map_of e ''description'' of Some d \<Rightarrow> d
            | None \<Rightarrow> (case map_of e ''summary'' of Some s \<Rightarrow> s | None \<Rightarrow> [])),
         published = (case map_of e ''published'' of Some p \<Rightarrow> p
            | None \<Rightarrow> (case map_of e ''updated'' of Some u \<Rightarrow> u | None \<Rightarrow> [])),
         feed_title = (case map_of (channel feed_ab) ''title'' of Some t \<Rightarrow> t
            | None \<Rightarrow> ''Unknown Feed''),
         feed_url = ''http://x/feed''\<rparr>) es)"
proof -
  have f: "fetch_feed sample_env sample_net ''http://x/feed'' = Inr (Some feed_ab)"
    by (simp add: model_defs sample_defs)
  have g: "fst (get_new_articles sample_env sample_net empty_state ''http://x/feed'' 1)
       = Inr [\<lparr>title = ''A'', link = ''http://x/1'', description = ''first'', published = [],
               feed_title = ''X News'', feed_url = ''http://x/feed''\<rparr>]"
    by (simp add: model_defs sample_defs)
  then have "get_new_articles sample_env sample_net empty_state ''http://x/feed'' 1
       = (Inr [\<lparr>title = ''A'', link = ''http://x/1'', description = ''first'', published = [],
               feed_title = ''X News'', feed_url = ''http://x/feed''\<rparr>],
          snd (get_new_articles sample_env sample_net empty_state ''http://x/feed'' 1))"
    by (simp add: prod_eq_iff)
  from articles_from_first_entries [OF _ f this] f g show ?thesis by simp
qed

section \<open>The check cycle\<close>

lemma outcomes_ids: "map fst (task_outcomes E nets tasks st) = map fst tasks"
  by (induction tasks arbitrary: st) (auto split: prod.splits)

lemma await_lookup:
  "distinct (map fst tasks) \<Longrightarrow>
   map_of (fst (await_tasks E nets tasks results st)) fid =
     (case map_of (task_outcomes E nets tasks st) fid of
        Some (Inr arts) \<Rightarrow> if arts \<noteq> [] then Some arts else map_of results fid
      | _ \<Rightarrow> map_of results fid)"
proof (induction tasks arbitrary: results st)
  case Nil
  then show ?case by simp
next
  case (Cons task tasks)
  obtain fid0 url where task: "task = (fid0, url)" by (cases task)
  obtain r st' where g: "get_new_articles E (nets fid0) st url 10 = (r, st')"
    by (cases "get_new_articles E (nets fid0) st url 10")
  from Cons.prems task have d: "distinct (map fst tasks)" and n: "fid0 \<notin> set (map fst tasks)"
    by simp_all
  have "fid0 \<notin> set (map fst (task_outcomes E nets tasks st'))"
    unfolding outcomes_ids by (rule n)
  then have none: "map_of (task_outcomes E nets tasks st') fid0 = None"
    by (simp add: map_of_eq_None_iff)
  note IH = Cons.IH [OF d, of _ st']
  show ?case
  proof (cases "fid = fid0")
    case True
    with task g none IH show ?thesis
      by (cases r) (simp_all add: update_conv')
  next
    case False
    with task g IH show ?thesis
      by (cases r) (simp_all add: update_conv' split: option.splits sum.splits)
  qed
qed

lemma make_tasks_url:
  "(fid, url) \<in> set (make_tasks feeds) \<Longrightarrow>
     \<exists>feed_data. (fid, feed_data) \<in> set feeds \<and> map_of feed_data ''url'' = Some url \<and> url \<noteq> []"
  by (induction feeds) (fastforce split: option.splits if_splits)+

lemma make_tasks_ids: "set (map fst (make_tasks feeds)) \<subseteq> set (map fst feeds)"
proof
  fix fid
  assume "fid \<in> set (map fst (make_tasks feeds))"
  then obtain url where "(fid, url) \<in> set (make_tasks feeds)" by auto
  from make_tasks_url [OF this] obtain feed_data where "(fid, feed_data) \<in> set feeds"
    by blast
  then show "fid \<in> set (map fst feeds)" by force
qed

lemma make_tasks_distinct: "distinct (map fst feeds) \<Longrightarrow> distinct (map fst (make_tasks feeds))"
proof (induction feeds)
  case Nil
  then show ?case by simp
next
  case (Cons feed feeds)
  obtain fid feed_data where f: "feed = (fid, feed_data)" by (cases feed)
  from Cons.prems f have "fid \<notin> set (map fst feeds)" by simp
  with make_tasks_ids [of feeds] have "fid \<notin> set (map fst (make_tasks feeds))" by blast
  with Cons f show ?case by (auto split: option.splits)
qed

lemma outcome_lookup:
  "distinct (map fst tasks) \<Longrightarrow>
     (map_of (task_outcomes E nets tasks st) fid = Some r) = ((fid, r) \<in> set (task_outcomes E nets tasks st))"
  by (metis map_of_eq_Some_iff outcomes_ids)

lemma update_entries: "set (AList.update k v al) \<subseteq> insert (k, v) (set al)"
  by (induction al) auto

lemma await_nonempty:
  "[] \<notin> snd ` set results \<Longrightarrow> [] \<notin> snd ` set (fst (await_tasks E nets tasks results st))"
proof (induction tasks arbitrary: results st)
  case Nil
  then show ?case by simp
next
  case (Cons task tasks)
  obtain fid0 url where task: "task = (fid0, url)" by (cases task)
  obtain r st' where g: "get_new_articles E (nets fid0) st url 10 = (r, st')"
    by (cases "get_new_articles E (nets fid0) st url 10")
  show ?case
  proof (cases r)
    case (Inl ex)
    with task g Cons show ?thesis by simp
  next
    case (Inr arts)
    show ?thesis
    proof (cases "arts = []")
      case True
      with Inr task g Cons show ?thesis by simp
    next
      case False
      with Cons.prems update_entries [of fid0 arts results]
      have "[] \<notin> snd ` set (AList.update fid0 arts results)" by force
      from Cons.IH [OF this] Inr False task g show ?thesis by simp
    qed
  qed
qed

lemma sample_tasks:
  "make_tasks sample_feeds
     = [(''a'', ''http://x/feed''), (''d'', ''http://x/gone''), (''e'', ''http://y/feed'')]"
  by (simp add: sample_feeds_def)

lemma sample_outcomes:
  "task_outcomes sample_env sample_nets (make_tasks sample_feeds) empty_state
     = [(''a'', Inr (map (make_article feed_ab ''http://x/feed'') (entries feed_ab))),
        (''d'', Inr []),
        (''e'', Inr [make_article feed_dup ''http://y/feed'' [(''link'', ''http://y/9'')]])]"
  by (simp add: sample_tasks sample_nets_def model_defs sample_defs)

lemma sample_results:
  "fst (check_all_feeds sample_env sample_nets sample_feeds empty_state)
     = [(''a'', map (make_article feed_ab ''http://x/feed'') (entries feed_ab)),
        (''e'', [make_article feed_dup ''http://y/feed'' [(''link'', ''http://y/9'')]])]"
  by (simp add: check_all_feeds_def sample_tasks sample_nets_def model_defs sample_defs)

lemma faulty_outcomes:
  "task_outcomes faulty_env sample_nets (make_tasks sample_feeds) empty_state
     = [(''a'', Inl OSError),
        (''d'', Inr []),
        (''e'', Inr [make_article feed_dup ''http://y/feed'' [(''link'', ''http://y/9'')]])]"
  by (simp add: sample_tasks sample_nets_def model_defs sample_defs)

text \<open>
  C6. With feed ids that are the keys of a dictionary (pairwise distinct), the mapping
  \<^verbatim>\<open>check_all_feeds\<close> returns holds a list for a feed id exactly when the task of that
  feed returned that list and the list is not empty. No entry of the mapping is an empty
  list, and a feed whose URL is missing or empty has no entry.
\<close>

theorem mapping_holds_feeds_with_new_articles:
  assumes "distinct (map fst feeds)"
  shows "(map_of (fst (check_all_feeds E nets feeds st)) fid = Some arts
            \<longleftrightarrow> (fid, Inr arts) \<in> set (task_outcomes E nets (make_tasks feeds) st) \<and> arts \<noteq> [])
       \<and> [] \<notin> snd ` set (fst (check_all_feeds E nets feeds st))
       \<and> (\<forall>feed_data. (fid, feed_data) \<in> set feeds
             \<and> (map_of feed_data ''url'' = None \<or> map_of feed_data ''url'' = Some [])
           \<longrightarrow> map_of (fst (check_all_feeds E nets feeds st)) fid = None)"
proof -
  let ?tasks = "make_tasks feeds"
  let ?out = "task_outcomes E nets ?tasks st"
  let ?res = "fst (check_all_feeds E nets feeds st)"
  have d: "distinct (map fst ?tasks)" using assms by (rule make_tasks_distinct)
  have look: "map_of ?res fid =
     (case map_of ?out fid of Some (Inr a) \<Rightarrow> if a \<noteq> [] then Some a else None | _ \<Rightarrow> None)"
    using await_lookup [OF d, of E nets "[]" st fid] by (simp add: check_all_feeds_def split: option.splits sum.splits)
  have 1: "map_of ?res fid = Some arts \<longleftrightarrow> (fid, Inr arts) \<in> set ?out \<and> arts \<noteq> []"
    unfolding look outcome_lookup [OF d, symmetric]
    by (auto split: option.splits sum.splits)
  have 2: "[] \<notin> snd ` set ?res"
    using await_nonempty [of "[]" E nets ?tasks st] by (simp add: check_all_feeds_def)
  have 3: "map_of ?res fid = None"
    if m: "(fid, feed_data) \<in> set feeds"
      and u: "map_of feed_data ''url'' = None \<or> map_of feed_data ''url'' = Some []"
    for feed_data
  proof -
    have "fid \<notin> set (map fst ?tasks)"
    proof
      assume "fid \<in> set (map fst ?tasks)"
      then obtain url where "(fid, url) \<in> set ?tasks" by auto
      from make_tasks_url [OF this] obtain feed_data' where
        m': "(fid, feed_data') \<in> set feeds" and u': "map_of feed_data' ''url'' = Some url"
        and n: "url \<noteq> []"
        by blast
      from assms m' m have "feed_data' = feed_data" by (rule eq_key_imp_eq_value)
      with u u' n show False by auto
    qed
    then have "fid \<notin> set (map fst ?out)" unfolding outcomes_ids .
    then have "map_of ?out fid = None" by (simp add: map_of_eq_None_iff)
    with look show ?thesis by simp
  qed
  from 1 2 3 show ?thesis by blast
qed

theorem mapping_holds_feeds_with_new_articles_witness:
  "distinct (map fst sample_feeds)
   \<and> (''a'', Inr (map (make_article feed_ab ''http://x/feed'') (entries feed_ab)))
       \<in> set (task_outcomes sample_env sample_nets (make_tasks sample_feeds) empty_state)
   \<and> map_of (fst (check_all_feeds sample_env sample_nets sample_feeds empty_state)) ''a''
       = Some (map (make_article feed_ab ''http://x/feed'') (entries feed_ab))
   \<and> (''b'', [(''url'', []), (''name'', ''no address'')]) \<in> set sample_feeds
   \<and> map_of [(''url'', []), (''name'', ''no address'')] ''url'' = Some []
   \<and> map_of (fst (check_all_feeds sample_env sample_nets sample_feeds empty_state)) ''b'' = None
   \<and> (''d'', Inr []) \<in> set (task_outcomes sample_env sample_nets (make_tasks sample_feeds) empty_state)
   \<and> map_of (fst (check_all_feeds sample_env sample_nets sample_feeds empty_state)) ''d'' = None"
proof -
  have d: "distinct (map fst sample_feeds)" by (simp add: sample_feeds_def)
  have a: "(''a'', Inr (map (make_article feed_ab ''http://x/feed'') (entries feed_ab)))
       \<in> set (task_outcomes sample_env sample_nets (make_tasks sample_feeds) empty_state)"
    and e: "(''d'', Inr []) \<in> set (task_outcomes sample_env sample_nets (make_tasks sample_feeds) empty_state)"
    by (simp_all add: sample_outcomes)
  have n: "map (make_article feed_ab ''http://x/feed'') (entries feed_ab) \<noteq> []"
    by (simp add: feed_ab_def)
  have b: "(''b'', [(''url'', []), (''name'', ''no address'')]) \<in> set sample_feeds"
    by (simp add: sample_feeds_def)
  have u: "map_of [(''url'', []), (''name'', ''no address'')] ''url'' = Some []" by simp
  from mapping_holds_feeds_with_new_articles [OF d, of sample_env sample_nets empty_state "''a''"
      "map (make_article feed_ab ''http://x/feed'') (entries feed_ab)"] a n
  have 1: "map_of (fst (check_all_feeds sample_env sample_nets sample_feeds empty_state)) ''a''
       = Some (map (make_article feed_ab ''http://x/feed'') (entries feed_ab))" by blast
  from mapping_holds_feeds_with_new_articles [OF d, of sample_env sample_nets empty_state "''b''"] b u
  have 2: "map_of (fst (check_all_feeds sample_env sample_nets sample_feeds empty_state)) ''b'' = None"
    by blast
  have 3: "map_of (fst (check_all_feeds sample_env sample_nets sample_feeds empty_state)) ''d'' = None"
    by (simp add: sample_results)
  from d a b u e 1 2 3 show ?thesis by simp
qed

text \<open>
  C5. When the task of one feed raises, the cycle goes on: that feed has no entry in the
  returned mapping, and every other feed whose task returned a non-empty list of new
  articles has exactly that list in the mapping.
\<close>

theorem failing_feed_does_not_abort_cycle:
  assumes "distinct (map fst feeds)"
    and "(fid, Inl ex) \<in> set (task_outcomes E nets (make_tasks feeds) st)"
  shows "map_of (fst (check_all_feeds E nets feeds st)) fid = None
       \<and> (\<forall>fid' arts. (fid', Inr arts) \<in> set (task_outcomes E nets (make_tasks feeds) st)
             \<and> arts \<noteq> []
           \<longrightarrow> map_of (fst (check_all_feeds E nets feeds st)) fid' = Some arts)"
proof -
  let ?tasks = "make_tasks feeds"
  let ?out = "task_outcomes E nets ?tasks st"
  let ?res = "fst (check_all_feeds E nets feeds st)"
  have d: "distinct (map fst ?tasks)" using assms(1) by (rule make_tasks_distinct)
  have look: "map_of ?res k =
     (case map_of ?out k of Some (Inr a) \<Rightarrow> if a \<noteq> [] then Some a else None | _ \<Rightarrow> None)"
    for k
    using await_lookup [OF d, of E nets "[]" st k]
    by (simp add: check_all_feeds_def split: option.splits sum.splits)
  from assms(2) have "map_of ?out fid = Some (Inl ex)"
    by (simp only: outcome_lookup [OF d])
  then have 1: "map_of ?res fid = None" by (simp add: look)
  have 2: "map_of ?res fid' = Some arts"
    if "(fid', Inr arts) \<in> set ?out \<and> arts \<noteq> []" for fid' arts
  proof -
    from that have "map_of ?out fid' = Some (Inr arts)"
      by (simp only: outcome_lookup [OF d])
    with that show ?thesis by (simp add: look)
  qed
  from 1 2 show ?thesis by blast
qed

theorem failing_feed_does_not_abort_cycle_witness:
  "distinct (map fst sample_feeds)
   \<and> (''a'', Inl OSError)
       \<in> set (task_outcomes faulty_env sample_nets (make_tasks sample_feeds) empty_state)
   \<and> (''e'', Inr [make_article feed_dup ''http://y/feed'' [(''link'', ''http://y/9'')]])
       \<in> set (task_outcomes faulty_env sample_nets (make_tasks sample_feeds) empty_state)
   \<and> map_of (fst (check_all_feeds faulty_env sample_nets sample_feeds empty_state)) ''a'' = None
   \<and> map_of (fst (check_all_feeds faulty_env sample_nets sample_feeds empty_state)) ''e''
       = Some [make_article feed_dup ''http://y/feed'' [(''link'', ''http://y/9'')]]"
proof -
  have d: "distinct (map fst sample_feeds)" by (simp add: sample_feeds_def)
  have a: "(''a'', Inl OSError)
       \<in> set (task_outcomes faulty_env sample_nets (make_tasks sample_feeds) empty_state)"
    and e: "(''e'', Inr [make_article feed_dup ''http://y/feed'' [(''link'', ''http://y/9'')]])
       \<in> set (task_outcomes faulty_env sample_nets (make_tasks sample_feeds) empty_state)"
    by (simp_all add: faulty_outcomes)
  from failing_feed_does_not_abort_cycle [OF d a] e
  have "map_of (fst (check_all_feeds faulty_env sample_nets sample_feeds empty_state)) ''a'' = None
     \<and> map_of (fst (check_all_feeds faulty_env sample_nets sample_feeds empty_state)) ''e''
       = Some [make_article feed_dup ''http://y/feed'' [(''link'', ''http://y/9'')]]"
    by blast
  with d a e show ?thesis by simp
qed

section \<open>Two cycles in a row\<close>

lemma loop_keys_grow:
  "new_articles_loop E f url es new st = (r, st') \<Longrightarrow>
     keys (processed_articles st) \<subseteq> keys (processed_articles st')"
  using loop_marks by blast

lemma loop_returns_all_seen:
  "new_articles_loop E f url es new st = (Inr arts, st') \<Longrightarrow>
     fingerprint E ` set es \<subseteq> keys (processed_articles st')"
proof (induction es arbitrary: new st)
  case Nil
  then show ?case by simp
next
  case (Cons e es)
  show ?case
  proof (cases "is_article_processed E st (entry_title e) (entry_link e)")
    case True
    with Cons.prems have l: "new_articles_loop E f url es new st = (Inr arts, st')" by simp
    from True loop_keys_grow [OF l] have "fingerprint E e \<in> keys (processed_articles st')"
      by (auto simp: is_article_processed_def)
    with Cons.IH [OF l] show ?thesis by simp
  next
    case False
    obtain r1 st1 where m: "mark_article_processed E st (entry_title e) (entry_link e) = (r1, st1)"
      by (cases "mark_article_processed E st (entry_title e) (entry_link e)")
    show ?thesis
    proof (cases r1)
      case (Inl ex)
      with Cons.prems False m show ?thesis by simp
    next
      case (Inr u)
      with Cons.prems False m
      have l: "new_articles_loop E f url es (new @ [make_article f url e]) st1 = (Inr arts, st')"
        by simp
      from mark_state [OF m] loop_keys_grow [OF l]
      have "fingerprint E e \<in> keys (processed_articles st')" by auto
      with Cons.IH [OF l] show ?thesis by simp
    qed
  qed
qed

lemma loop_nothing_new:
  "fingerprint E ` set es \<subseteq> keys (processed_articles st) \<Longrightarrow>
     new_articles_loop E f url es new st = (Inr new, st)"
  by (induction es arbitrary: new) (simp_all add: is_article_processed_def)

lemma pass_keys_grow:
  "get_new_articles E net st url n = (r, st') \<Longrightarrow>
     keys (processed_articles st) \<subseteq> keys (processed_articles st')"
  by (auto simp: get_new_articles_def split: sum.splits option.splits dest: loop_keys_grow)

lemma pass_returns_all_seen:
  "get_new_articles E net st url n = (Inr arts, st') \<Longrightarrow>
     fingerprint E ` set (slice_to (fetched_entries E net url) n) \<subseteq> keys (processed_articles st')"
  by (auto simp: get_new_articles_def fetched_entries_def slice_to_Nil
      split: sum.splits option.splits dest!: loop_returns_all_seen)

lemma pass_nothing_new:
  "fingerprint E ` set (slice_to (fetched_entries E net url) n) \<subseteq> keys (processed_articles st) \<Longrightarrow>
     get_new_articles E net st url n = (Inr [], st)"
  by (auto simp: get_new_articles_def fetched_entries_def loop_nothing_new fetch_feed_not_Inl
      split: sum.splits option.splits)

lemma await_keys_grow:
  "keys (processed_articles st) \<subseteq> keys (processed_articles (snd (await_tasks E nets tasks results st)))"
proof (induction tasks arbitrary: results st)
  case Nil
  then show ?case by simp
next
  case (Cons task tasks)
  obtain fid url where task: "task = (fid, url)" by (cases task)
  obtain r st' where g: "get_new_articles E (nets fid) st url 10 = (r, st')"
    by (cases "get_new_articles E (nets fid) st url 10")
  from pass_keys_grow [OF g] Cons.IH [of st'] task g show ?case
    by (cases r) (auto split: if_splits)
qed

lemma await_returns_all_seen:
  "\<forall>p \<in> set (task_outcomes E nets tasks st). \<exists>arts. snd p = Inr arts \<Longrightarrow>
   (fid, url) \<in> set tasks \<Longrightarrow>
     fingerprint E ` set (slice_to (fetched_entries E (nets fid) url) 10)
       \<subseteq> keys (processed_articles (snd (await_tasks E nets tasks results st)))"
proof (induction tasks arbitrary: results st)
  case Nil
  then show ?case by simp
next
  case (Cons task tasks)
  obtain fid0 url0 where task: "task = (fid0, url0)" by (cases task)
  obtain r st' where g: "get_new_articles E (nets fid0) st url0 10 = (r, st')"
    by (cases "get_new_articles E (nets fid0) st url0 10")
  from Cons.prems(1) task g obtain arts where r: "r = Inr arts"
    and rest: "\<forall>p \<in> set (task_outcomes E nets tasks st'). \<exists>arts. snd p = Inr arts"
    by auto
  define results' where "results' = (if arts \<noteq> [] then AList.update fid0 arts results else results)"
  have step: "await_tasks E nets (task # tasks) results st = await_tasks E nets tasks results' st'"
    using task g r by (simp add: results'_def)
  show ?case
  proof (cases "(fid, url) = (fid0, url0)")
    case True
    from pass_returns_all_seen g r
    have "fingerprint E ` set (slice_to (fetched_entries E (nets fid0) url0) 10)
            \<subseteq> keys (processed_articles st')" by blast
    with await_keys_grow [of st' E nets tasks results'] True step show ?thesis by auto
  next
    case False
    with Cons.prems(2) task have "(fid, url) \<in> set tasks" by auto
    from Cons.IH [OF rest this, of results'] step show ?thesis by simp
  qed
qed

lemma await_nothing_new:
  "\<forall>(fid, url) \<in> set tasks.
      fingerprint E ` set (slice_to (fetched_entries E (nets fid) url) 10)
        \<subseteq> keys (processed_articles st) \<Longrightarrow>
   await_tasks E nets tasks results st = (results, st)"
  by (induction tasks) (auto simp: pass_nothing_new)

text \<open>
  C2, as stated, fails when a pass of the first cycle is cut short by an exception. In
  the environment whose first write of the index file fails, the pass over feed \<open>a\<close>
  marks its first entry in memory, raises at the write and never reaches its second
  entry; the cycle still runs to completion. The second cycle, with the same entries
  from every feed, returns that second entry: its result is not empty.
\<close>

theorem second_cycle_after_failed_write_counterexample:
  "task_outcomes faulty_env sample_nets (make_tasks sample_feeds) empty_state
     = [(''a'', Inl OSError),
        (''d'', Inr []),
        (''e'', Inr [make_article feed_dup ''http://y/feed'' [(''link'', ''http://y/9'')]])]
   \<and> fst (check_all_feeds faulty_env sample_nets sample_feeds empty_state)
     = [(''e'', [make_article feed_dup ''http://y/feed'' [(''link'', ''http://y/9'')]])]
   \<and> fst (check_all_feeds faulty_env sample_nets sample_feeds
        (snd (check_all_feeds faulty_env sample_nets sample_feeds empty_state)))
     = [(''a'', [make_article feed_ab ''http://x/feed''
                  [(''title'', ''B''), (''link'', ''http://x/2''), (''updated'', ''today'')]])]
   \<and> fst (check_all_feeds faulty_env sample_nets sample_feeds
        (snd (check_all_feeds faulty_env sample_nets sample_feeds empty_state))) \<noteq> []"
proof -
  have 1: "fst (check_all_feeds faulty_env sample_nets sample_feeds empty_state)
     = [(''e'', [make_article feed_dup ''http://y/feed'' [(''link'', ''http://y/9'')]])]"
    by (simp add: check_all_feeds_def sample_tasks sample_nets_def model_defs sample_defs)
  have 2: "fst (check_all_feeds faulty_env sample_nets sample_feeds
        (snd (check_all_feeds faulty_env sample_nets sample_feeds empty_state)))
     = [(''a'', [make_article feed_ab ''http://x/feed''
                  [(''title'', ''B''), (''link'', ''http://x/2''), (''updated'', ''today'')]])]"
    by (simp add: check_all_feeds_def sample_tasks sample_nets_def model_defs sample_defs)
  from faulty_outcomes 1 2 show ?thesis by simp
qed

text \<open>
  C2, amended. If no task of the first cycle raised, and in the second cycle every feed
  delivers the same entries as in the first, then the second cycle returns the empty
  mapping.
\<close>

theorem second_cycle_is_empty:
  assumes "\<forall>p \<in> set (task_outcomes E nets1 (make_tasks feeds) st). \<exists>arts. snd p = Inr arts"
    and "\<forall>(fid, url) \<in> set (make_tasks feeds).
           fetched_entries E (nets2 fid) url = fetched_entries E (nets1 fid) url"
  shows "fst (check_all_feeds E nets2 feeds (snd (check_all_feeds E nets1 feeds st))) = []"
proof -
  let ?st1 = "snd (check_all_feeds E nets1 feeds st)"
  have "\<forall>(fid, url) \<in> set (make_tasks feeds).
      fingerprint E ` set (slice_to (fetched_entries E (nets2 fid) url) 10)
        \<subseteq> keys (processed_articles ?st1)"
  proof (clarify)
    fix fid url e
    assume m: "(fid, url) \<in> set (make_tasks feeds)"
      and e: "e \<in> set (slice_to (fetched_entries E (nets2 fid) url) 10)"
    from assms(2) m have "fetched_entries E (nets2 fid) url = fetched_entries E (nets1 fid) url"
      by auto
    with e await_returns_all_seen [OF assms(1) m, of "[]"]
    show "fingerprint E e \<in> keys (processed_articles ?st1)"
      by (auto simp: check_all_feeds_def)
  qed
  from await_nothing_new [OF this, of "[]"] show ?thesis
    by (simp add: check_all_feeds_def)
qed


theorem second_cycle_is_empty_witness:
  "task_outcomes sample_env sample_nets (make_tasks sample_feeds) empty_state
     = [(''a'', Inr (map (make_article feed_ab ''http://x/feed'') (entries feed_ab))),
        (''d'', Inr []),
        (''e'', Inr [make_article feed_dup ''http://y/feed'' [(''link'', ''http://y/9'')]])]
   \<and> fst (check_all_feeds sample_env sample_nets sample_feeds empty_state)
     = [(''a'', map (make_article feed_ab ''http://x/feed'') (entries feed_ab)),
        (''e'', [make_article feed_dup ''http://y/feed'' [(''link'', ''http://y/9'')]])]
   \<and> fst (check_all_feeds sample_env sample_nets sample_feeds
        (snd (check_all_feeds sample_env sample_nets sample_feeds empty_state))) = []"
proof -
  have "\<forall>p \<in> set (task_outcomes sample_env sample_nets (make_tasks sample_feeds) empty_state).
          \<exists>arts. snd p = Inr arts"
    by (simp add: sample_outcomes)
  from second_cycle_is_empty [OF this, of sample_nets] sample_outcomes sample_results
  show ?thesis by simp
qed

section \<open>Pruning\<close>



lemma iso_parse_samples:
  "iso_parse ''2023-12-22T00:00:00'' = Inr (DateTime 63838800000000000 None)"
  "iso_parse ''2024-01-01T00:00:00'' = Inr (DateTime 63839664000000000 None)"
  "iso_parse ''2024-01-21T00:00:00'' = Inr (DateTime 63841392000000000 None)"
  "iso_parse ''yesterday'' = Inl ValueError"
  by code_simp+

lemma cutoff_sample:
  "timedelta_days 30 = Inr 2592000000000"
  "datetime_minus (DateTime 63842256000000000 None) 2592000000000
     = Inr (DateTime 63839664000000000 None)"
  by (simp_all add: timedelta_days_def datetime_minus_def max_ticks_def)

lemma cleanup_recorded:
  "cleanup_old_processed_articles sample_env recorded_state 30
    = (Inr 0, \<lparr>processed_articles = [(''h2'', ''2024-01-21T00:00:00'')],
          stored = Json [(''h2'', ''2024-01-21T00:00:00'')], now_calls = 1,
          save_calls = 1, marked = []\<rparr>)"
  by (simp add: cleanup_old_processed_articles_def recorded_state_def empty_state_def
      sample_env_def cutoff_sample iso_parse_samples datetime_gt_def
      save_processed_articles_def dict_len_def Let_def)


text \<open>
  C3. The claim is that \<^verbatim>\<open>cleanup_old_processed_articles\<close> returns the number of entries
  it removed. The source computes \<^verbatim>\<open>len(self.processed_articles) - len(cleaned_articles)\<close>
  after it has assigned \<^verbatim>\<open>cleaned_articles\<close> to \<^verbatim>\<open>self.processed_articles\<close>, so whenever
  the function returns, it returns 0. On the index of three entries above, pruned with 30
  days, one entry is left and the value returned is 0, not 2.
\<close>

theorem removed_count_is_always_zero:
  "((\<exists>ex. fst (cleanup_old_processed_articles E st days) = Inl ex)
      \<or> fst (cleanup_old_processed_articles E st days) = Inr 0)
   \<and> dict_len (processed_articles recorded_state) = 3
   \<and> dict_len (processed_articles (snd (cleanup_old_processed_articles sample_env recorded_state 30))) = 1
   \<and> fst (cleanup_old_processed_articles sample_env recorded_state 30) = Inr 0"
proof -
  have "(\<exists>ex. fst (cleanup_old_processed_articles E st days) = Inl ex)
      \<or> fst (cleanup_old_processed_articles E st days) = Inr 0"
    by (simp add: cleanup_old_processed_articles_def save_processed_articles_def Let_def
        split: sum.splits write_outcome.splits)
  moreover have "dict_len (processed_articles recorded_state) = 3"
    by (simp add: recorded_state_def dict_len_def)
  ultimately show ?thesis by (simp add: cleanup_recorded dict_len_def)
qed




end
